theory Spec2Isabelle
  imports Complex_Main "HOL-Library.Multiset"
begin

section \<open>Geometry primitives\<close>

text \<open>
  Coordinates are Python numbers, \<open>float\<close> in every use the repository makes of them
  (\<open>width / 2\<close> is a float also for \<open>int\<close> fields). The model takes them as exact numbers
  (\<open>real\<close>): rounding, overflow (\<open>**\<close> raises \<open>OverflowError\<close>, \<open>*\<close> gives \<open>inf\<close>) and
  NaN are not modelled. What is proved below of sums such as \<open>(x + w) + w = x + width\<close>
  and of squares is therefore a fact of exact arithmetic; the sections on the search and
  on routing say where the float program differs.
  The fields of \<open>Point\<close> and \<open>Rectangle\<close> carry a prefix, since both classes have an \<open>x\<close>
  and a \<open>y\<close>.
\<close>

record point =
  p_x :: real
  p_y :: real
  p_label :: "string option"

record rectangle =
  r_x :: real
  r_y :: real
  r_width :: real
  r_height :: real

definition Rectangle_init :: "real \<Rightarrow> real \<Rightarrow> real \<Rightarrow> real \<Rightarrow> rectangle" where
  "Rectangle_init x y width height = \<lparr>r_x = x, r_y = y, r_width = width, r_height = height\<rparr>"

definition distance_sq_to_point :: "rectangle \<Rightarrow> point \<Rightarrow> real" where
  "distance_sq_to_point r p =
     (let dx = max 0 (max (r_x r - p_x p) (p_x p - (r_x r + r_width r)));
          dy = max 0 (max (r_y r - p_y p) (p_y p - (r_y r + r_height r)))
      in dx * dx + dy * dy)"

definition contains :: "rectangle \<Rightarrow> point \<Rightarrow> bool" where
  "contains r p \<longleftrightarrow>
     (r_x r \<le> p_x p \<and> p_x p < r_x r + r_width r) \<and>
     (r_y r \<le> p_y p \<and> p_y p < r_y r + r_height r)"

text \<open>The expression \<open>(p.x - q.x)**2 + (p.y - q.y)**2\<close> of the three scans.\<close>

definition point_dist_sq :: "point \<Rightarrow> point \<Rightarrow> real" where
  "point_dist_sq p q = (p_x p - p_x q)\<^sup>2 + (p_y p - p_y q)\<^sup>2"

section \<open>Tree nodes\<close>

text \<open>
  A \<open>QuadtreeNode\<close>. The flag \<open>divided\<close> and the four child fields are written together,
  in \<open>__init__\<close> and in \<open>subdivide\<close> only, so the flag is the constructor: \<open>Leaf\<close> is a
  node with \<open>divided = False\<close> and no children, \<open>Divided\<close> one with \<open>divided = True\<close> and
  its four children. Both keep the list \<open>points\<close>.
\<close>

datatype node =
    Leaf (boundary: rectangle) (capacity: int) (points: "point list")
  | Divided (boundary: rectangle) (capacity: int) (points: "point list")
      (northwest: node) (northeast: node) (southwest: node) (southeast: node)

fun divided :: "node \<Rightarrow> bool" where
  "divided (Leaf b c ps) = False"
| "divided (Divided b c ps nw ne sw se) = True"

fun set_points :: "node \<Rightarrow> point list \<Rightarrow> node" where
  "set_points (Leaf b c ps) qs = Leaf b c qs"
| "set_points (Divided b c ps nw ne sw se) qs = Divided b c qs nw ne sw se"

definition QuadtreeNode_init :: "rectangle \<Rightarrow> int \<Rightarrow> node" where
  "QuadtreeNode_init b c = Leaf b c []"

definition subdivide :: "node \<Rightarrow> node" where
  "subdivide n =
     (let x = r_x (boundary n); y = r_y (boundary n);
          w = r_width (boundary n) / 2; h = r_height (boundary n) / 2
      in Divided (boundary n) (capacity n) (points n)
           (QuadtreeNode_init (Rectangle_init x y w h) (capacity n))
           (QuadtreeNode_init (Rectangle_init (x + w) y w h) (capacity n))
           (QuadtreeNode_init (Rectangle_init x (y + h) w h) (capacity n))
           (QuadtreeNode_init (Rectangle_init (x + w) (y + h) w h) (capacity n)))"

subsection \<open>Insertion\<close>

text \<open>
  \<open>insert\<close> and \<open>_insert_to_children\<close> call each other, and nothing in the code bounds the
  depth. A call is a function from the node and the point to the returned flag and the
  node afterwards; \<open>None\<close> says that the call returns nothing (the recursion does not
  end within the depth allowed, or a child is missing). The bodies take the recursive
  call as a parameter, and \<open>insert_fuel k\<close> is \<open>insert\<close> with calls nested at most \<open>k\<close>
  deep.
\<close>

type_synonym insert_call = "node \<Rightarrow> point \<Rightarrow> (bool \<times> node) option"

fun insert_to_children :: "insert_call \<Rightarrow> node \<Rightarrow> point \<Rightarrow> (bool \<times> node) option" where
  "insert_to_children ins (Divided b c ps nw ne sw se) p =
     (case ins nw p of
        None \<Rightarrow> None
      | Some (r1, nw') \<Rightarrow>
          if r1 then Some (True, Divided b c ps nw' ne sw se)
          else (case ins ne p of
            None \<Rightarrow> None
          | Some (r2, ne') \<Rightarrow>
              if r2 then Some (True, Divided b c ps nw' ne' sw se)
              else (case ins sw p of
                None \<Rightarrow> None
              | Some (r3, sw') \<Rightarrow>
                  if r3 then Some (True, Divided b c ps nw' ne' sw' se)
                  else (case ins se p of
                    None \<Rightarrow> None
                  | Some (r4, se') \<Rightarrow> Some (r4, Divided b c ps nw' ne' sw' se')))))"
| "insert_to_children ins (Leaf b c ps) p = None"

text \<open>The loop \<open>for p in self.points: self._insert_to_children(p)\<close>; the flag is dropped.\<close>

fun move_points :: "insert_call \<Rightarrow> node \<Rightarrow> point list \<Rightarrow> node option" where
  "move_points ins n [] = Some n"
| "move_points ins n (p # ps) =
     (case insert_to_children ins n p of
        None \<Rightarrow> None
      | Some (r, n') \<Rightarrow> move_points ins n' ps)"

definition insert_body :: "insert_call \<Rightarrow> node \<Rightarrow> point \<Rightarrow> (bool \<times> node) option" where
  "insert_body ins n p =
     (if \<not> contains (boundary n) p then Some (False, n)
      else if int (length (points n)) < capacity n \<and> \<not> divided n
        then Some (True, set_points n (points n @ [p]))
      else if \<not> divided n then
        (case move_points ins (subdivide n) (points n) of
           None \<Rightarrow> None
         | Some n' \<Rightarrow> insert_to_children ins (set_points n' []) p)
      else insert_to_children ins n p)"

primrec insert_fuel :: "nat \<Rightarrow> insert_call" where
  "insert_fuel 0 = (\<lambda>n p. None)"
| "insert_fuel (Suc k) = insert_body (insert_fuel k)"

section \<open>The tree handle\<close>

record quadtree =
  qt_boundary :: rectangle
  root :: node

definition Quadtree_init :: "rectangle \<Rightarrow> int \<Rightarrow> quadtree" where
  "Quadtree_init b c = \<lparr>qt_boundary = b, root = QuadtreeNode_init b c\<rparr>"

text \<open>
  Construction as a call that may fail. Neither \<open>Rectangle.__init__\<close> nor
  \<open>Quadtree.__init__\<close> has a \<open>raise\<close> or an \<open>assert\<close>, so no branch returns the error.
\<close>

datatype error = PreconditionViolation

definition Rectangle_construct :: "real \<Rightarrow> real \<Rightarrow> real \<Rightarrow> real \<Rightarrow> error + rectangle" where
  "Rectangle_construct x y width height = Inr (Rectangle_init x y width height)"

definition Quadtree_construct :: "rectangle \<Rightarrow> int \<Rightarrow> error + quadtree" where
  "Quadtree_construct b c = Inr (Quadtree_init b c)"

definition Quadtree_insert :: "nat \<Rightarrow> quadtree \<Rightarrow> point \<Rightarrow> (bool \<times> quadtree) option" where
  "Quadtree_insert k t p =
     (case insert_fuel k (root t) p of
        None \<Rightarrow> None
      | Some (r, n') \<Rightarrow> Some (r, t\<lparr>root := n'\<rparr>))"

text \<open>All points stored under a node, in the order resident points, NW, NE, SW, SE.\<close>

fun all_points :: "node \<Rightarrow> point list" where
  "all_points (Leaf b c ps) = ps"
| "all_points (Divided b c ps nw ne sw se) =
     ps @ all_points nw @ all_points ne @ all_points sw @ all_points se"

section \<open>Nearest-neighbour search\<close>

text \<open>
  The accumulator starts at \<open>float('inf')\<close>: \<open>xreal\<close> is a number or \<open>+inf\<close>, ordered
  as Python orders them (\<open>+inf\<close> above every number), with \<open>math.sqrt(inf) = inf\<close>.
\<close>

datatype xreal = Fin real | PInf

instantiation xreal :: linorder
begin

fun less_eq_xreal :: "xreal \<Rightarrow> xreal \<Rightarrow> bool" where
  "less_eq_xreal (Fin a) (Fin b) \<longleftrightarrow> a \<le> b"
| "less_eq_xreal a PInf \<longleftrightarrow> True"
| "less_eq_xreal PInf (Fin b) \<longleftrightarrow> False"

fun less_xreal :: "xreal \<Rightarrow> xreal \<Rightarrow> bool" where
  "less_xreal (Fin a) (Fin b) \<longleftrightarrow> a < b"
| "less_xreal (Fin a) PInf \<longleftrightarrow> True"
| "less_xreal PInf b \<longleftrightarrow> False"

instance
proof
  fix a b c :: xreal
  show "a < b \<longleftrightarrow> a \<le> b \<and> \<not> b \<le> a" by (cases a; cases b) auto
  show "a \<le> a" by (cases a) auto
  show "a \<le> b \<Longrightarrow> b \<le> c \<Longrightarrow> a \<le> c" by (cases a; cases b; cases c) auto
  show "a \<le> b \<Longrightarrow> b \<le> a \<Longrightarrow> a = b" by (cases a; cases b) auto
  show "a \<le> b \<or> b \<le> a" by (cases a; cases b) auto
qed

end

fun xsqrt :: "xreal \<Rightarrow> xreal" where
  "xsqrt (Fin a) = Fin (sqrt a)"
| "xsqrt PInf = PInf"

text \<open>The dictionary \<open>best_found\<close>, with its two keys.\<close>

record best_found =
  dist_sq :: xreal
  point :: "point option"

text \<open>The loop over \<open>self.points\<close> of both searches.\<close>

fun scan_points :: "point \<Rightarrow> point list \<Rightarrow> best_found \<Rightarrow> best_found" where
  "scan_points q [] bf = bf"
| "scan_points q (p # ps) bf =
     scan_points q ps
       (if Fin (point_dist_sq p q) < dist_sq bf
        then bf\<lparr>dist_sq := Fin (point_dist_sq p q), point := Some p\<rparr>
        else bf)"

text \<open>
  \<open>QuadtreeNode.query\<close> and \<open>QuadtreeNode._find_nearest\<close> (here \<open>find_nearest_node\<close>: a
  name cannot start with an underscore). \<open>list.sort\<close> is stable and sorts by ascending
  key, as \<open>sort_key\<close> does; the key of \<open>_find_nearest\<close> is a truth value, with
  \<open>False\<close> below \<open>True\<close> in both languages.
\<close>

function (sequential) query :: "node \<Rightarrow> point \<Rightarrow> best_found \<Rightarrow> best_found" where
  "query (Leaf b c ps) q bf =
     (if Fin (distance_sq_to_point b q) > dist_sq bf then bf
      else scan_points q ps bf)"
| "query (Divided b c ps nw ne sw se) q bf =
     (if Fin (distance_sq_to_point b q) > dist_sq bf then bf
      else fold (\<lambda>child acc. query child q acc)
             (sort_key (\<lambda>child. distance_sq_to_point (boundary child) q) [nw, ne, sw, se])
             (scan_points q ps bf))"
  by pat_completeness auto
termination
  by (relation "measure (\<lambda>(n, q, bf). size n)") (auto simp del: sort_key_simps)

function (sequential) find_nearest_node :: "node \<Rightarrow> point \<Rightarrow> best_found \<Rightarrow> best_found" where
  "find_nearest_node (Leaf b c ps) q bf =
     (if Fin (distance_sq_to_point b q) > dist_sq bf then bf
      else scan_points q ps bf)"
| "find_nearest_node (Divided b c ps nw ne sw se) q bf =
     (if Fin (distance_sq_to_point b q) > dist_sq bf then bf
      else fold (\<lambda>child acc. find_nearest_node child q acc)
             (sort_key (\<lambda>child. \<not> contains (boundary child) q) [nw, ne, sw, se])
             (scan_points q ps bf))"
  by pat_completeness auto
termination
  by (relation "measure (\<lambda>(n, q, bf). size n)") (auto simp del: sort_key_simps)

text \<open>The linear scan, with its two local variables as the state of the loop.\<close>

fun brute_loop :: "point \<Rightarrow> point list \<Rightarrow> point option \<times> xreal \<Rightarrow> point option \<times> xreal" where
  "brute_loop q [] (best_p, min_dist_sq) = (best_p, min_dist_sq)"
| "brute_loop q (p # ps) (best_p, min_dist_sq) =
     brute_loop q ps
       (if Fin (point_dist_sq p q) < min_dist_sq then (Some p, Fin (point_dist_sq p q))
        else (best_p, min_dist_sq))"

definition find_closest_brute_force :: "point \<Rightarrow> point list \<Rightarrow> point option \<times> xreal" where
  "find_closest_brute_force query_point all_pts = brute_loop query_point all_pts (None, PInf)"

definition fresh_best_found :: best_found where
  "fresh_best_found = \<lparr>dist_sq = PInf, point = None\<rparr>"

definition Quadtree_find_nearest :: "quadtree \<Rightarrow> point \<Rightarrow> point option \<times> xreal" where
  "Quadtree_find_nearest t query_point =
     (let best = find_nearest_node (root t) query_point fresh_best_found
      in (point best, xsqrt (dist_sq best)))"

definition Quadtree_query :: "quadtree \<Rightarrow> point \<Rightarrow> best_found \<Rightarrow> best_found" where
  "Quadtree_query t p bf = query (root t) p bf"

subsection \<open>The search with the tree as state\<close>

text \<open>
  \<open>query\<close> and \<open>find_nearest_node\<close> above give the accumulator after the call. The
  functions below model the same two methods with the heap made explicit: a call on a
  node returns the node as the call leaves it, together with the accumulator. The list
  \<open>children\<close> of the source holds references, so each entry carries the slot it was read
  from; the sort reorders the entries, every child is visited once, and the node
  afterwards has in each slot what the call on that child left there.
\<close>

datatype slot = NW | NE | SW | SE

type_synonym search_call = "node \<Rightarrow> best_found \<Rightarrow> node \<times> best_found"

fun visit :: "search_call \<Rightarrow> (slot \<times> node) list \<Rightarrow> best_found \<Rightarrow>
    (slot \<times> node) list \<times> best_found" where
  "visit f [] bf = ([], bf)"
| "visit f ((s, child) # rest) bf =
     (case f child bf of
        (child', bf1) \<Rightarrow>
          (case visit f rest bf1 of
             (rest', bf2) \<Rightarrow> ((s, child') # rest', bf2)))"

lemma visit_cong [fundef_cong]:
  "xs = ys \<Longrightarrow> bf = bf' \<Longrightarrow> (\<And>s child acc. (s, child) \<in> set ys \<Longrightarrow> f child acc = g child acc) \<Longrightarrow>
     visit f xs bf = visit g ys bf'"
proof (induction ys arbitrary: xs bf bf')
  case Nil
  then show ?case by simp
next
  case (Cons a ys)
  obtain s child where a: "a = (s, child)" by (cases a)
  have h: "f child bf' = g child bf'" by (rule Cons.prems(3) [of s]) (simp add: a)
  have r: "visit f ys acc = visit g ys acc" for acc
  proof (rule Cons.IH [OF refl refl])
    fix s' child' acc'
    assume "(s', child') \<in> set ys"
    then have "(s', child') \<in> set (a # ys)" by simp
    then show "f child' acc' = g child' acc'" by (rule Cons.prems(3))
  qed
  show ?case by (simp add: Cons.prems(1,2) a h r)
qed

definition child_at :: "(slot \<times> node) list \<Rightarrow> slot \<Rightarrow> node \<Rightarrow> node" where
  "child_at kids s old = (case map_of kids s of Some child \<Rightarrow> child | None \<Rightarrow> old)"

function (sequential) query_st :: "node \<Rightarrow> point \<Rightarrow> best_found \<Rightarrow> node \<times> best_found" where
  "query_st (Leaf b c ps) q bf =
     (if Fin (distance_sq_to_point b q) > dist_sq bf then (Leaf b c ps, bf)
      else (Leaf b c ps, scan_points q ps bf))"
| "query_st (Divided b c ps nw ne sw se) q bf =
     (if Fin (distance_sq_to_point b q) > dist_sq bf then (Divided b c ps nw ne sw se, bf)
      else
        (case visit (\<lambda>child acc. query_st child q acc)
                (sort_key (\<lambda>(s, child). distance_sq_to_point (boundary child) q)
                   [(NW, nw), (NE, ne), (SW, sw), (SE, se)])
                (scan_points q ps bf) of
           (kids, bf') \<Rightarrow>
             (Divided b c ps (child_at kids NW nw) (child_at kids NE ne)
                (child_at kids SW sw) (child_at kids SE se), bf')))"
  by pat_completeness auto
termination
  by (relation "measure (\<lambda>(n, q, bf). size n)") (auto simp del: sort_key_simps)

function (sequential) find_nearest_node_st ::
    "node \<Rightarrow> point \<Rightarrow> best_found \<Rightarrow> node \<times> best_found" where
  "find_nearest_node_st (Leaf b c ps) q bf =
     (if Fin (distance_sq_to_point b q) > dist_sq bf then (Leaf b c ps, bf)
      else (Leaf b c ps, scan_points q ps bf))"
| "find_nearest_node_st (Divided b c ps nw ne sw se) q bf =
     (if Fin (distance_sq_to_point b q) > dist_sq bf then (Divided b c ps nw ne sw se, bf)
      else
        (case visit (\<lambda>child acc. find_nearest_node_st child q acc)
                (sort_key (\<lambda>(s, child). \<not> contains (boundary child) q)
                   [(NW, nw), (NE, ne), (SW, sw), (SE, se)])
                (scan_points q ps bf) of
           (kids, bf') \<Rightarrow>
             (Divided b c ps (child_at kids NW nw) (child_at kids NE ne)
                (child_at kids SW sw) (child_at kids SE se), bf')))"
  by pat_completeness auto
termination
  by (relation "measure (\<lambda>(n, q, bf). size n)") (auto simp del: sort_key_simps)

definition Quadtree_query_st :: "quadtree \<Rightarrow> point \<Rightarrow> best_found \<Rightarrow> quadtree \<times> best_found" where
  "Quadtree_query_st t p bf =
     (case query_st (root t) p bf of (n', bf') \<Rightarrow> (t\<lparr>root := n'\<rparr>, bf'))"

definition Quadtree_find_nearest_st ::
    "quadtree \<Rightarrow> point \<Rightarrow> quadtree \<times> (point option \<times> xreal)" where
  "Quadtree_find_nearest_st t query_point =
     (case find_nearest_node_st (root t) query_point fresh_best_found of
        (n', best) \<Rightarrow> (t\<lparr>root := n'\<rparr>, (point best, xsqrt (dist_sq best))))"

section \<open>Invariants of a tree\<close>

text \<open>
  \<open>geom_inv\<close>: the resident points of every node lie in its boundary, and the boundaries
  of the children of a divided node are those that \<open>subdivide\<close> creates. \<open>cap_inv\<close>: a
  leaf holds at most \<open>capacity\<close> points and a divided node holds none.
  \<open>built b c ps t\<close>: the tree \<open>t\<close> is what the calls \<open>insert(p)\<close> for the points of \<open>ps\<close>,
  in this order, leave of \<open>Quadtree(b, c)\<close>, every call having returned.
\<close>

fun children :: "node \<Rightarrow> node list" where
  "children (Leaf b c ps) = []"
| "children (Divided b c ps nw ne sw se) = [nw, ne, sw, se]"

definition quartered :: "node \<Rightarrow> bool" where
  "quartered n \<longleftrightarrow> map boundary (children n) = map boundary (children (subdivide n))"

fun geom_inv :: "node \<Rightarrow> bool" where
  "geom_inv (Leaf b c ps) = list_all (contains b) ps"
| "geom_inv (Divided b c ps nw ne sw se) =
     (list_all (contains b) ps \<and> quartered (Divided b c ps nw ne sw se) \<and>
      geom_inv nw \<and> geom_inv ne \<and> geom_inv sw \<and> geom_inv se)"

fun cap_inv :: "node \<Rightarrow> bool" where
  "cap_inv (Leaf b c ps) = (int (length ps) \<le> c)"
| "cap_inv (Divided b c ps nw ne sw se) =
     (ps = [] \<and> cap_inv nw \<and> cap_inv ne \<and> cap_inv sw \<and> cap_inv se)"

inductive built :: "rectangle \<Rightarrow> int \<Rightarrow> point list \<Rightarrow> quadtree \<Rightarrow> bool" where
  built_init: "built b c [] (Quadtree_init b c)"
| built_insert:
    "built b c ps t \<Longrightarrow> Quadtree_insert k t p = Some (r, t') \<Longrightarrow> built b c (ps @ [p]) t'"

fun nodes :: "node \<Rightarrow> node list" where
  "nodes (Leaf b c ps) = [Leaf b c ps]"
| "nodes (Divided b c ps nw ne sw se) =
     Divided b c ps nw ne sw se # nodes nw @ nodes ne @ nodes sw @ nodes se"

section \<open>Rectangle: the pruning bound\<close>

lemma axis_gap_bound:
  fixes lo len q v :: real
  assumes "lo \<le> v" "v < lo + len"
  shows "(max 0 (max (lo - q) (q - (lo + len)))) * (max 0 (max (lo - q) (q - (lo + len))))
           \<le> (v - q)\<^sup>2"
proof -
  let ?d = "max 0 (max (lo - q) (q - (lo + len)))"
  have "0 \<le> ?d" by simp
  moreover have "?d \<le> \<bar>v - q\<bar>" using assms by (simp add: max_def abs_if)
  ultimately have "?d * ?d \<le> \<bar>v - q\<bar> * \<bar>v - q\<bar>" by (intro mult_mono) auto
  then show ?thesis by (simp add: power2_eq_square)
qed

lemma distance_sq_lower_bound:
  assumes "contains r p"
  shows "distance_sq_to_point r q \<le> point_dist_sq p q"
proof -
  from assms have X: "r_x r \<le> p_x p" "p_x p < r_x r + r_width r"
    and Y: "r_y r \<le> p_y p" "p_y p < r_y r + r_height r"
    by (simp_all add: contains_def)
  show ?thesis
    unfolding distance_sq_to_point_def point_dist_sq_def Let_def
    by (intro add_mono axis_gap_bound X Y)
qed





section \<open>Insertion keeps the invariants\<close>

lemma quartered_Divided:
  "quartered (Divided b c ps nw ne sw se) \<longleftrightarrow>
     boundary nw = Rectangle_init (r_x b) (r_y b) (r_width b / 2) (r_height b / 2) \<and>
     boundary ne = Rectangle_init (r_x b + r_width b / 2) (r_y b) (r_width b / 2) (r_height b / 2) \<and>
     boundary sw = Rectangle_init (r_x b) (r_y b + r_height b / 2) (r_width b / 2) (r_height b / 2) \<and>
     boundary se = Rectangle_init (r_x b + r_width b / 2) (r_y b + r_height b / 2)
                     (r_width b / 2) (r_height b / 2)"
  by (simp add: quartered_def subdivide_def QuadtreeNode_init_def Let_def)

lemma quarters_partition:
  assumes "quartered (Divided b c ps nw ne sw se)" "contains b p"
  shows "length (filter (\<lambda>ch. contains (boundary ch) p) [nw, ne, sw, se]) = 1"
  using assms
  by (auto simp: quartered_Divided contains_def Rectangle_init_def)

lemma quarters_inside:
  assumes "quartered (Divided b c ps nw ne sw se)" "ch \<in> set [nw, ne, sw, se]" "contains (boundary ch) p"
  shows "contains b p"
  using assms
  by (auto simp: quartered_Divided contains_def Rectangle_init_def)

lemma insert_to_children_cases:
  assumes "insert_to_children ins (Divided b c ps nw ne sw se) p = Some (r, n')"
  obtains
    (nw) nw' where "ins nw p = Some (True, nw')" "r" "n' = Divided b c ps nw' ne sw se"
  | (ne) nw' ne' where "ins nw p = Some (False, nw')" "ins ne p = Some (True, ne')" "r"
      "n' = Divided b c ps nw' ne' sw se"
  | (sw) nw' ne' sw' where "ins nw p = Some (False, nw')" "ins ne p = Some (False, ne')"
      "ins sw p = Some (True, sw')" "r" "n' = Divided b c ps nw' ne' sw' se"
  | (se) nw' ne' sw' se' where "ins nw p = Some (False, nw')" "ins ne p = Some (False, ne')"
      "ins sw p = Some (False, sw')" "ins se p = Some (r, se')"
      "n' = Divided b c ps nw' ne' sw' se'"
  using assms by (auto split: option.splits if_splits)


lemma geom_inv_all_points:
  "geom_inv n \<Longrightarrow> p \<in> set (all_points n) \<Longrightarrow> contains (boundary n) p"
proof (induction n)
  case (Leaf b c ps)
  then show ?case by (simp add: list_all_iff)
next
  case (Divided b c ps nw ne sw se)
  from Divided.prems have q: "quartered (Divided b c ps nw ne sw se)" by simp
  from Divided.prems(2) consider "p \<in> set ps" | "p \<in> set (all_points nw)"
    | "p \<in> set (all_points ne)" | "p \<in> set (all_points sw)" | "p \<in> set (all_points se)"
    by auto
  then show ?case
  proof cases
    case 1
    with Divided.prems show ?thesis by (simp add: list_all_iff)
  next
    case 2
    with Divided have "contains (boundary nw) p" by simp
    then show ?thesis using quarters_inside [OF q, of nw p] by simp
  next
    case 3
    with Divided have "contains (boundary ne) p" by simp
    then show ?thesis using quarters_inside [OF q, of ne p] by simp
  next
    case 4
    with Divided have "contains (boundary sw) p" by simp
    then show ?thesis using quarters_inside [OF q, of sw p] by simp
  next
    case 5
    with Divided have "contains (boundary se) p" by simp
    then show ?thesis using quarters_inside [OF q, of se p] by simp
  qed
qed

definition ins_post :: "node \<Rightarrow> point \<Rightarrow> bool \<Rightarrow> node \<Rightarrow> bool" where
  "ins_post n p r n' \<longleftrightarrow>
     boundary n' = boundary n \<and> capacity n' = capacity n \<and>
     (\<not> contains (boundary n) p \<longrightarrow> \<not> r \<and> n' = n) \<and>
     (geom_inv n \<longrightarrow> geom_inv n' \<and>
        (contains (boundary n) p \<longrightarrow>
           r \<and> mset (all_points n') = add_mset p (mset (all_points n)))) \<and>
     (cap_inv n \<longrightarrow> cap_inv n')"

definition call_ok :: "insert_call \<Rightarrow> bool" where
  "call_ok ins \<longleftrightarrow> (\<forall>n p r n'. ins n p = Some (r, n') \<longrightarrow> ins_post n p r n')"

definition node_step :: "node \<Rightarrow> node \<Rightarrow> bool" where
  "node_step n n' \<longleftrightarrow>
     boundary n' = boundary n \<and> capacity n' = capacity n \<and>
     (geom_inv n \<longrightarrow> geom_inv n') \<and> (cap_inv n \<longrightarrow> cap_inv n')"

definition child_step :: "node \<Rightarrow> point \<Rightarrow> node \<Rightarrow> bool" where
  "child_step n p n' \<longleftrightarrow> node_step n n' \<and> (\<not> contains (boundary n) p \<longrightarrow> n' = n)"

lemma node_step_refl: "node_step n n"
  by (simp add: node_step_def)

lemma node_step_trans: "node_step a b \<Longrightarrow> node_step b c \<Longrightarrow> node_step a c"
  by (simp add: node_step_def)

lemma child_step_refl: "child_step n p n"
  by (simp add: child_step_def node_step_refl)

lemma ins_post_step: "ins_post n p r n' \<Longrightarrow> child_step n p n'"
  by (simp add: ins_post_def child_step_def node_step_def)

lemma call_ok_step: "call_ok ins \<Longrightarrow> ins n p = Some (r, n') \<Longrightarrow> child_step n p n'"
  unfolding call_ok_def using ins_post_step by blast

lemma call_ok_False:
  "call_ok ins \<Longrightarrow> ins n p = Some (False, n') \<Longrightarrow> geom_inv n \<Longrightarrow>
     n' = n \<and> \<not> contains (boundary n) p"
  unfolding call_ok_def ins_post_def by blast

lemma call_ok_True:
  "call_ok ins \<Longrightarrow> ins n p = Some (True, n') \<Longrightarrow> geom_inv n \<Longrightarrow>
     mset (all_points n') = add_mset p (mset (all_points n))"
  unfolding call_ok_def ins_post_def by blast

lemma call_ok_inside:
  "call_ok ins \<Longrightarrow> ins n p = Some (r, n') \<Longrightarrow> geom_inv n \<Longrightarrow> contains (boundary n) p \<Longrightarrow>
     r \<and> mset (all_points n') = add_mset p (mset (all_points n))"
  unfolding call_ok_def ins_post_def by blast

lemma insert_to_children_shape:
  assumes ok: "call_ok ins"
    and res: "insert_to_children ins (Divided b c ps nw ne sw se) p = Some (r, n')"
  obtains nw' ne' sw' se' where "n' = Divided b c ps nw' ne' sw' se'"
    "child_step nw p nw'" "child_step ne p ne'" "child_step sw p sw'" "child_step se p se'"
  using res
proof (cases rule: insert_to_children_cases)
  case (nw nw')
  show ?thesis
    by (rule that [OF nw(3) call_ok_step [OF ok nw(1)] child_step_refl child_step_refl
          child_step_refl])
next
  case (ne nw' ne')
  show ?thesis
    by (rule that [OF ne(4) call_ok_step [OF ok ne(1)] call_ok_step [OF ok ne(2)]
          child_step_refl child_step_refl])
next
  case (sw nw' ne' sw')
  show ?thesis
    by (rule that [OF sw(5) call_ok_step [OF ok sw(1)] call_ok_step [OF ok sw(2)]
          call_ok_step [OF ok sw(3)] child_step_refl])
next
  case (se nw' ne' sw' se')
  show ?thesis
    by (rule that [OF se(5) call_ok_step [OF ok se(1)] call_ok_step [OF ok se(2)]
          call_ok_step [OF ok se(3)] call_ok_step [OF ok se(4)]])
qed

lemma quarters_cover:
  assumes "quartered (Divided b c ps nw ne sw se)" "contains b p"
    "\<not> contains (boundary nw) p" "\<not> contains (boundary ne) p" "\<not> contains (boundary sw) p"
  shows "contains (boundary se) p"
  using assms by (auto simp: quartered_Divided contains_def Rectangle_init_def)

text \<open>The points stored under the children of a node.\<close>

definition kids_points :: "node \<Rightarrow> point multiset" where
  "kids_points n = mset (concat (map all_points (children n)))"

lemma kids_points_Divided:
  "kids_points (Divided b c ps nw ne sw se) =
     mset (all_points nw) + mset (all_points ne) + mset (all_points sw) + mset (all_points se)"
  by (simp add: kids_points_def)

lemma insert_to_children_stores:
  assumes ok: "call_ok ins"
    and res: "insert_to_children ins (Divided b c ps nw ne sw se) p = Some (r, n')"
    and g: "geom_inv nw" "geom_inv ne" "geom_inv sw" "geom_inv se"
    and q: "quartered (Divided b c ps nw ne sw se)" and inside: "contains b p"
  shows "r \<and> kids_points n' = add_mset p (kids_points (Divided b c ps nw ne sw se))"
  using res
proof (cases rule: insert_to_children_cases)
  case (nw nw')
  from call_ok_True [OF ok nw(1) g(1)] nw(2,3) show ?thesis
    by (simp add: kids_points_Divided)
next
  case (ne nw' ne')
  from call_ok_False [OF ok ne(1) g(1)] call_ok_True [OF ok ne(2) g(2)] ne(3,4)
  show ?thesis by (simp add: kids_points_Divided)
next
  case (sw nw' ne' sw')
  from call_ok_False [OF ok sw(1) g(1)] call_ok_False [OF ok sw(2) g(2)]
    call_ok_True [OF ok sw(3) g(3)] sw(4,5)
  show ?thesis by (simp add: kids_points_Divided)
next
  case (se nw' ne' sw' se')
  note f = call_ok_False [OF ok se(1) g(1)] call_ok_False [OF ok se(2) g(2)]
    call_ok_False [OF ok se(3) g(3)]
  from f have "contains (boundary se) p" using quarters_cover [OF q inside] by blast
  from call_ok_inside [OF ok se(4) g(4) this] f se(5)
  show ?thesis by (simp add: kids_points_Divided)
qed


text \<open>A divided node before and after calls on its children.\<close>

fun kids_rel :: "node \<Rightarrow> node \<Rightarrow> bool" where
  "kids_rel (Divided b c ps nw ne sw se) (Divided b' c' ps' nw' ne' sw' se') \<longleftrightarrow>
     b' = b \<and> c' = c \<and> ps' = ps \<and>
     node_step nw nw' \<and> node_step ne ne' \<and> node_step sw sw' \<and> node_step se se'"
| "kids_rel (Leaf b c ps) n' \<longleftrightarrow> False"
| "kids_rel n (Leaf b c ps) \<longleftrightarrow> False"

lemma kids_rel_refl: "divided n \<Longrightarrow> kids_rel n n"
  by (cases n) (simp_all add: node_step_refl)

lemma kids_rel_trans: "kids_rel a b \<Longrightarrow> kids_rel b c \<Longrightarrow> kids_rel a c"
  by (cases a; cases b; cases c) (auto intro: node_step_trans)

lemma kids_rel_fields:
  "kids_rel n n' \<Longrightarrow>
     divided n \<and> divided n' \<and> boundary n' = boundary n \<and> capacity n' = capacity n \<and>
     points n' = points n"
  by (cases n; cases n') simp_all

lemma kids_rel_quartered: "kids_rel n n' \<Longrightarrow> quartered n \<Longrightarrow> quartered n'"
  by (cases n; cases n') (simp_all add: quartered_Divided node_step_def)

lemma kids_rel_geom:
  "kids_rel n n' \<Longrightarrow> list_all geom_inv (children n) \<Longrightarrow> list_all geom_inv (children n')"
  by (cases n; cases n') (simp_all add: node_step_def)

lemma kids_rel_cap:
  "kids_rel n n' \<Longrightarrow> list_all cap_inv (children n) \<Longrightarrow> list_all cap_inv (children n')"
  by (cases n; cases n') (simp_all add: node_step_def)

lemma kids_rel_set_points: "kids_rel n n' \<Longrightarrow> kids_rel n (set_points n' (points n))"
  by (cases n; cases n') simp_all

lemma insert_to_children_rel:
  assumes ok: "call_ok ins" and res: "insert_to_children ins n p = Some (r, n')"
  shows "kids_rel n n'"
proof (cases n)
  case (Leaf b c ps)
  with res show ?thesis by simp
next
  case (Divided b c ps nw ne sw se)
  from res [unfolded Divided] show ?thesis
    by (rule insert_to_children_shape [OF ok]) (simp add: Divided child_step_def)
qed

lemma move_points_rel:
  assumes ok: "call_ok ins"
  shows "move_points ins n qs = Some n' \<Longrightarrow> divided n \<Longrightarrow> kids_rel n n'"
proof (induction qs arbitrary: n)
  case Nil
  then show ?case by (simp add: kids_rel_refl)
next
  case (Cons q qs)
  from Cons.prems(1) obtain r n1 where
    s: "insert_to_children ins n q = Some (r, n1)" and m: "move_points ins n1 qs = Some n'"
    by (auto split: option.splits)
  have r1: "kids_rel n n1" by (rule insert_to_children_rel [OF ok s])
  then have "divided n1" by (simp add: kids_rel_fields)
  with m have "kids_rel n1 n'" by (rule Cons.IH)
  with r1 show ?case by (rule kids_rel_trans)
qed

lemma insert_to_children_stores':
  assumes ok: "call_ok ins"
    and res: "insert_to_children ins n p = Some (r, n')"
    and g: "list_all geom_inv (children n)"
    and q: "quartered n" and inside: "contains (boundary n) p"
  shows "r \<and> kids_points n' = add_mset p (kids_points n)"
proof (cases n)
  case (Leaf b c ps)
  with res show ?thesis by simp
next
  case (Divided b c ps nw ne sw se)
  show ?thesis
    unfolding Divided
    by (rule insert_to_children_stores [OF ok res [unfolded Divided]])
       (use g q inside in \<open>simp_all add: Divided\<close>)
qed

lemma move_points_stores:
  assumes ok: "call_ok ins"
  shows "move_points ins n qs = Some n' \<Longrightarrow> divided n \<Longrightarrow> list_all geom_inv (children n) \<Longrightarrow>
     quartered n \<Longrightarrow> list_all (contains (boundary n)) qs \<Longrightarrow>
     kids_points n' = kids_points n + mset qs"
proof (induction qs arbitrary: n)
  case Nil
  then show ?case by simp
next
  case (Cons q qs)
  from Cons.prems(1) obtain r n1 where
    s: "insert_to_children ins n q = Some (r, n1)" and m: "move_points ins n1 qs = Some n'"
    by (auto split: option.splits)
  have r1: "kids_rel n n1" by (rule insert_to_children_rel [OF ok s])
  from Cons.prems(5) have inq: "contains (boundary n) q" and rest: "list_all (contains (boundary n)) qs"
    by simp_all
  have st: "kids_points n1 = add_mset q (kids_points n)"
    using insert_to_children_stores' [OF ok s Cons.prems(3) Cons.prems(4) inq] by simp
  have "kids_points n' = kids_points n1 + mset qs"
  proof (rule Cons.IH [OF m])
    show "divided n1" using r1 by (simp add: kids_rel_fields)
    show "list_all geom_inv (children n1)" by (rule kids_rel_geom [OF r1 Cons.prems(3)])
    show "quartered n1" by (rule kids_rel_quartered [OF r1 Cons.prems(4)])
    show "list_all (contains (boundary n1)) qs" using rest r1 by (simp add: kids_rel_fields)
  qed
  with st show ?case by simp
qed


lemma all_points_kids:
  "divided n \<Longrightarrow> mset (all_points n) = mset (points n) + kids_points n"
  by (cases n) (simp_all add: kids_points_def)

lemma geom_inv_divided:
  "divided n \<Longrightarrow> geom_inv n \<longleftrightarrow>
     list_all (contains (boundary n)) (points n) \<and> quartered n \<and> list_all geom_inv (children n)"
  by (cases n) simp_all

lemma cap_inv_divided:
  "divided n \<Longrightarrow> cap_inv n \<longleftrightarrow> points n = [] \<and> list_all cap_inv (children n)"
  by (cases n) simp_all

lemma subdivide_fields:
  "divided (subdivide n)" "boundary (subdivide n) = boundary n"
  "capacity (subdivide n) = capacity n" "points (subdivide n) = points n"
  by (simp_all add: subdivide_def Let_def)

lemma subdivide_quartered: "quartered (subdivide n)"
  by (simp add: quartered_def subdivide_def Let_def)

lemma subdivide_kids_geom: "list_all geom_inv (children (subdivide n))"
  by (simp add: subdivide_def Let_def QuadtreeNode_init_def)

lemma subdivide_kids_cap: "0 \<le> capacity n \<Longrightarrow> list_all cap_inv (children (subdivide n))"
  by (simp add: subdivide_def Let_def QuadtreeNode_init_def)

lemma subdivide_kids_points: "kids_points (subdivide n) = {#}"
  by (simp add: kids_points_def subdivide_def Let_def QuadtreeNode_init_def)

lemma set_points_fields:
  "divided (set_points n qs) = divided n" "boundary (set_points n qs) = boundary n"
  "capacity (set_points n qs) = capacity n" "points (set_points n qs) = qs"
  "children (set_points n qs) = children n"
  by (cases n; simp)+

lemma set_points_quartered: "quartered (set_points n qs) = quartered n"
  by (cases n) (simp_all add: quartered_def subdivide_def Let_def)

lemma set_points_kids_points: "kids_points (set_points n qs) = kids_points n"
  by (simp add: kids_points_def set_points_fields)

lemma insert_divided_post:
  assumes ok: "call_ok ins" and res: "insert_to_children ins n p = Some (r, n')"
    and inside: "contains (boundary n) p"
  shows "ins_post n p r n'"
proof -
  have rel: "kids_rel n n'" by (rule insert_to_children_rel [OF ok res])
  then have f: "divided n" "divided n'" "boundary n' = boundary n" "capacity n' = capacity n"
    "points n' = points n"
    by (simp_all add: kids_rel_fields)
  have geom: "geom_inv n'" and stores: "r" "mset (all_points n') = add_mset p (mset (all_points n))"
    if g: "geom_inv n"
  proof -
    from g f(1) have g': "list_all (contains (boundary n)) (points n)" "quartered n"
      "list_all geom_inv (children n)"
      by (simp_all add: geom_inv_divided)
    show "geom_inv n'"
      using f g' kids_rel_quartered [OF rel] kids_rel_geom [OF rel]
      by (simp add: geom_inv_divided)
    from insert_to_children_stores' [OF ok res g'(3) g'(2) inside]
    show "r" and "mset (all_points n') = add_mset p (mset (all_points n))"
      using f by (simp_all add: all_points_kids)
  qed
  have cap: "cap_inv n'" if "cap_inv n"
    using that f kids_rel_cap [OF rel] by (simp add: cap_inv_divided)
  show ?thesis
    unfolding ins_post_def using f(3,4) inside geom stores cap by blast
qed

lemma insert_body_post:
  assumes ok: "call_ok ins" and res: "insert_body ins n p = Some (r, n')"
  shows "ins_post n p r n'"
proof (cases "contains (boundary n) p")
  case False
  with res show ?thesis by (simp add: insert_body_def ins_post_def)
next
  case inside: True
  show ?thesis
  proof (cases n)
    case (Divided b c ps nw ne sw se)
    with res inside have "insert_to_children ins n p = Some (r, n')"
      by (simp add: insert_body_def)
    then show ?thesis by (rule insert_divided_post [OF ok _ inside])
  next
    case (Leaf b c ps)
    show ?thesis
    proof (cases "int (length ps) < c")
      case True
      with res inside Leaf have "r" "n' = Leaf b c (ps @ [p])"
        by (simp_all add: insert_body_def)
      with inside Leaf True show ?thesis by (simp add: ins_post_def)
    next
      case full: False
      with res inside Leaf obtain n1 where
        mv: "move_points ins (subdivide n) ps = Some n1"
        and last: "insert_to_children ins (set_points n1 []) p = Some (r, n')"
        by (auto simp: insert_body_def split: option.splits)
      have r1: "kids_rel (subdivide n) n1"
        by (rule move_points_rel [OF ok mv]) (simp add: subdivide_fields)
      then have f1: "divided n1" "boundary n1 = boundary n" "capacity n1 = capacity n"
        by (simp_all add: kids_rel_fields subdivide_fields)
      let ?n2 = "set_points n1 []"
      have in2: "contains (boundary ?n2) p" using inside f1 by (simp add: set_points_fields)
      have r2: "kids_rel ?n2 n'" by (rule insert_to_children_rel [OF ok last])
      then have f2: "divided n'" "boundary n' = boundary n" "capacity n' = capacity n"
        "points n' = []"
        using f1 by (simp_all add: kids_rel_fields set_points_fields)
      have q1: "quartered n1" by (rule kids_rel_quartered [OF r1 subdivide_quartered])
      have g1: "list_all geom_inv (children n1)"
        by (rule kids_rel_geom [OF r1 subdivide_kids_geom])
      have q2: "quartered ?n2" using q1 by (simp add: set_points_quartered)
      have g2: "list_all geom_inv (children ?n2)" using g1 by (simp add: set_points_fields)
      have geom: "geom_inv n'"
        using f2 kids_rel_quartered [OF r2 q2] kids_rel_geom [OF r2 g2]
        by (simp add: geom_inv_divided)
      have stores: "r" "mset (all_points n') = add_mset p (mset (all_points n))"
        if g: "geom_inv n"
      proof -
        from g Leaf have "list_all (contains (boundary (subdivide n))) ps"
          by (simp add: subdivide_fields)
        from move_points_stores [OF ok mv _ subdivide_kids_geom subdivide_quartered this]
        have k1: "kids_points n1 = mset ps"
          by (simp add: subdivide_fields subdivide_kids_points)
        from insert_to_children_stores' [OF ok last g2 q2 in2]
        have "r" "kids_points n' = add_mset p (kids_points ?n2)" by simp_all
        then show "r" "mset (all_points n') = add_mset p (mset (all_points n))"
          using f2 k1 Leaf by (simp_all add: all_points_kids set_points_kids_points)
      qed
      have cap: "cap_inv n'" if c: "cap_inv n"
      proof -
        from c Leaf have "0 \<le> capacity n" by simp
        then have "list_all cap_inv (children n1)"
          using kids_rel_cap [OF r1] subdivide_kids_cap by blast
        then have "list_all cap_inv (children ?n2)" by (simp add: set_points_fields)
        then have "list_all cap_inv (children n')" by (rule kids_rel_cap [OF r2])
        with f2 show ?thesis by (simp add: cap_inv_divided)
      qed
      show ?thesis
        unfolding ins_post_def using f2(2,3) inside geom stores cap by blast
    qed
  qed
qed

lemma insert_fuel_ok: "call_ok (insert_fuel k)"
proof (induction k)
  case 0
  show ?case by (simp add: call_ok_def)
next
  case (Suc k)
  show ?case
    unfolding call_ok_def
  proof (intro allI impI)
    fix n p r n'
    assume "insert_fuel (Suc k) n p = Some (r, n')"
    then have "insert_body (insert_fuel k) n p = Some (r, n')" by simp
    then show "ins_post n p r n'" by (rule insert_body_post [OF Suc])
  qed
qed

lemma insert_fuel_post: "insert_fuel k n p = Some (r, n') \<Longrightarrow> ins_post n p r n'"
  using insert_fuel_ok [of k] unfolding call_ok_def by blast

section \<open>The search finds the minimum\<close>

definition best_of :: "point \<Rightarrow> point set \<Rightarrow> best_found \<Rightarrow> best_found \<Rightarrow> bool" where
  "best_of q S bf bf' \<longleftrightarrow>
     dist_sq bf' \<le> dist_sq bf \<and>
     (\<forall>p\<in>S. dist_sq bf' \<le> Fin (point_dist_sq p q)) \<and>
     (bf' = bf \<or> (\<exists>p\<in>S. point bf' = Some p \<and> dist_sq bf' = Fin (point_dist_sq p q)))"

lemma best_of_skip:
  "(\<And>p. p \<in> S \<Longrightarrow> dist_sq bf \<le> Fin (point_dist_sq p q)) \<Longrightarrow> best_of q S bf bf"
  by (simp add: best_of_def)

lemma best_of_compose:
  assumes "best_of q A bf bf1" "best_of q B bf1 bf2"
  shows "best_of q (A \<union> B) bf bf2"
proof -
  from assms have le: "dist_sq bf2 \<le> dist_sq bf1" "dist_sq bf1 \<le> dist_sq bf"
    by (simp_all add: best_of_def)
  have 1: "dist_sq bf2 \<le> dist_sq bf" using le by (rule order_trans)
  have 2: "dist_sq bf2 \<le> Fin (point_dist_sq p q)" if "p \<in> A \<union> B" for p
  proof -
    from that assms have "dist_sq bf1 \<le> Fin (point_dist_sq p q) \<or> dist_sq bf2 \<le> Fin (point_dist_sq p q)"
      by (auto simp: best_of_def)
    with le(1) show ?thesis by (auto intro: order_trans)
  qed
  have 3: "bf2 = bf \<or> (\<exists>p\<in>A \<union> B. point bf2 = Some p \<and> dist_sq bf2 = Fin (point_dist_sq p q))"
    using assms unfolding best_of_def by blast
  from 1 2 3 show ?thesis unfolding best_of_def by blast
qed

lemma best_of_scan: "best_of q (set ps) bf (scan_points q ps bf)"
proof (induction ps arbitrary: bf)
  case Nil
  show ?case by (simp add: best_of_def)
next
  case (Cons p ps)
  let ?bf1 = "if Fin (point_dist_sq p q) < dist_sq bf
        then bf\<lparr>dist_sq := Fin (point_dist_sq p q), point := Some p\<rparr> else bf"
  have "best_of q {p} bf ?bf1" by (simp add: best_of_def less_imp_le not_less)
  moreover have "best_of q (set ps) ?bf1 (scan_points q ps ?bf1)" by (rule Cons.IH)
  ultimately have "best_of q ({p} \<union> set ps) bf (scan_points q ps ?bf1)"
    by (rule best_of_compose)
  then show ?case by simp
qed

lemma best_of_fold:
  assumes "\<And>ch bf. ch \<in> set chs \<Longrightarrow> best_of q (set (all_points ch)) bf (f ch bf)"
  shows "best_of q (\<Union>ch\<in>set chs. set (all_points ch)) bf (fold f chs bf)"
  using assms
proof (induction chs arbitrary: bf)
  case Nil
  show ?case by (simp add: best_of_def)
next
  case (Cons ch chs)
  have "best_of q (set (all_points ch)) bf (f ch bf)" by (rule Cons.prems) simp
  moreover have "best_of q (\<Union>ch\<in>set chs. set (all_points ch)) (f ch bf) (fold f chs (f ch bf))"
    by (rule Cons.IH) (simp add: Cons.prems)
  ultimately have "best_of q (set (all_points ch) \<union> (\<Union>ch\<in>set chs. set (all_points ch))) bf
      (fold f chs (f ch bf))"
    by (rule best_of_compose)
  then show ?case by simp
qed

lemma prune_sound:
  assumes "geom_inv n" "dist_sq bf < Fin (distance_sq_to_point (boundary n) q)"
  shows "best_of q (set (all_points n)) bf bf"
proof (rule best_of_skip)
  fix p assume "p \<in> set (all_points n)"
  with assms(1) have "contains (boundary n) p" by (rule geom_inv_all_points)
  then have "distance_sq_to_point (boundary n) q \<le> point_dist_sq p q"
    by (rule distance_sq_lower_bound)
  then have "Fin (distance_sq_to_point (boundary n) q) \<le> Fin (point_dist_sq p q)" by simp
  with assms(2) have "dist_sq bf < Fin (point_dist_sq p q)" by (rule less_le_trans)
  then show "dist_sq bf \<le> Fin (point_dist_sq p q)" by (rule less_imp_le)
qed

lemma kids_union:
  "set chs = {nw, ne, sw, se} \<Longrightarrow>
   set ps \<union> (\<Union>ch\<in>set chs. set (all_points ch)) = set (all_points (Divided b c ps nw ne sw se))"
  by auto

lemma query_best:
  "geom_inv n \<Longrightarrow> best_of q (set (all_points n)) bf (query n q bf)"
proof (induction n arbitrary: bf)
  case (Leaf b c ps)
  show ?case
  proof (cases "dist_sq bf < Fin (distance_sq_to_point b q)")
    case True
    with prune_sound [OF Leaf.prems, of bf q] show ?thesis by simp
  next
    case False
    with best_of_scan [of q ps bf] show ?thesis by simp
  qed
next
  case (Divided b c ps nw ne sw se)
  let ?n = "Divided b c ps nw ne sw se"
  show ?case
  proof (cases "dist_sq bf < Fin (distance_sq_to_point b q)")
    case True
    with prune_sound [OF Divided.prems, of bf q] show ?thesis by simp
  next
    case False
    let ?chs = "sort_key (\<lambda>child. distance_sq_to_point (boundary child) q) [nw, ne, sw, se]"
    have s: "set ?chs = {nw, ne, sw, se}" by (simp del: sort_key_simps)
    have kids: "best_of q (set (all_points ch)) a (query ch q a)" if "ch \<in> set ?chs" for ch a
    proof -
      from that s have "ch = nw \<or> ch = ne \<or> ch = sw \<or> ch = se" by blast
      with Divided.IH Divided.prems show ?thesis by auto
    qed
    have "best_of q (set ps \<union> (\<Union>ch\<in>set ?chs. set (all_points ch))) bf
        (fold (\<lambda>child acc. query child q acc) ?chs (scan_points q ps bf))"
      by (rule best_of_compose [OF best_of_scan best_of_fold]) (rule kids)
    then have "best_of q (set (all_points ?n)) bf
        (fold (\<lambda>child acc. query child q acc) ?chs (scan_points q ps bf))"
      by (simp only: kids_union [OF s, of ps b c])
    with False show ?thesis by (simp del: sort_key_simps)
  qed
qed

lemma find_nearest_node_best:
  "geom_inv n \<Longrightarrow> best_of q (set (all_points n)) bf (find_nearest_node n q bf)"
proof (induction n arbitrary: bf)
  case (Leaf b c ps)
  show ?case
  proof (cases "dist_sq bf < Fin (distance_sq_to_point b q)")
    case True
    with prune_sound [OF Leaf.prems, of bf q] show ?thesis by simp
  next
    case False
    with best_of_scan [of q ps bf] show ?thesis by simp
  qed
next
  case (Divided b c ps nw ne sw se)
  let ?n = "Divided b c ps nw ne sw se"
  show ?case
  proof (cases "dist_sq bf < Fin (distance_sq_to_point b q)")
    case True
    with prune_sound [OF Divided.prems, of bf q] show ?thesis by simp
  next
    case False
    let ?chs = "sort_key (\<lambda>child. \<not> contains (boundary child) q) [nw, ne, sw, se]"
    have s: "set ?chs = {nw, ne, sw, se}" by (simp del: sort_key_simps)
    have kids: "best_of q (set (all_points ch)) a (find_nearest_node ch q a)"
      if "ch \<in> set ?chs" for ch a
    proof -
      from that s have "ch = nw \<or> ch = ne \<or> ch = sw \<or> ch = se" by blast
      with Divided.IH Divided.prems show ?thesis by auto
    qed
    have "best_of q (set ps \<union> (\<Union>ch\<in>set ?chs. set (all_points ch))) bf
        (fold (\<lambda>child acc. find_nearest_node child q acc) ?chs (scan_points q ps bf))"
      by (rule best_of_compose [OF best_of_scan best_of_fold]) (rule kids)
    then have "best_of q (set (all_points ?n)) bf
        (fold (\<lambda>child acc. find_nearest_node child q acc) ?chs (scan_points q ps bf))"
      by (simp only: kids_union [OF s, of ps b c])
    with False show ?thesis by (simp del: sort_key_simps)
  qed
qed

lemma best_of_unique:
  assumes "best_of q S bf a" "best_of q S bf b"
  shows "dist_sq a = dist_sq b"
proof (rule antisym)
  show "dist_sq a \<le> dist_sq b" using assms unfolding best_of_def by metis
  show "dist_sq b \<le> dist_sq a" using assms unfolding best_of_def by metis
qed

lemma brute_loop_scan:
  "brute_loop q ps (bp, md) =
     (point (scan_points q ps \<lparr>dist_sq = md, point = bp\<rparr>),
      dist_sq (scan_points q ps \<lparr>dist_sq = md, point = bp\<rparr>))"
  by (induction ps arbitrary: bp md) simp_all

lemma brute_force_best:
  "\<exists>bf'. find_closest_brute_force q ps = (point bf', dist_sq bf') \<and>
          best_of q (set ps) fresh_best_found bf'"
  unfolding find_closest_brute_force_def brute_loop_scan fresh_best_found_def
  using best_of_scan by blast

lemma best_of_fresh_point:
  assumes "best_of q S fresh_best_found bf'"
  shows "case point bf' of None \<Rightarrow> S = {} \<and> dist_sq bf' = PInf
         | Some p \<Rightarrow> p \<in> S \<and> dist_sq bf' = Fin (point_dist_sq p q)"
proof (cases "bf' = fresh_best_found")
  case True
  have "S = {}"
  proof (rule ccontr)
    assume "S \<noteq> {}"
    then obtain p where "p \<in> S" by blast
    with assms True have "PInf \<le> Fin (point_dist_sq p q)"
      by (auto simp: best_of_def fresh_best_found_def)
    then show False by simp
  qed
  with True show ?thesis by (simp add: fresh_best_found_def)
next
  case False
  with assms obtain p where "p \<in> S" "point bf' = Some p" "dist_sq bf' = Fin (point_dist_sq p q)"
    unfolding best_of_def by blast
  then show ?thesis by simp
qed

section \<open>Trees built by insertion\<close>

lemma Quadtree_insert_Some:
  "Quadtree_insert k t p = Some (r, t') \<Longrightarrow>
     \<exists>n'. insert_fuel k (root t) p = Some (r, n') \<and> t' = t\<lparr>root := n'\<rparr>"
  by (auto simp: Quadtree_insert_def split: option.splits)

lemma built_inv:
  "built b c ps t \<Longrightarrow>
     qt_boundary t = b \<and> boundary (root t) = b \<and> capacity (root t) = c \<and> geom_inv (root t) \<and>
     mset (all_points (root t)) = mset (filter (contains b) ps) \<and>
     (0 \<le> c \<longrightarrow> cap_inv (root t))"
proof (induction rule: built.induct)
  case (built_init b c)
  show ?case by (simp add: Quadtree_init_def QuadtreeNode_init_def)
next
  case (built_insert b c ps t k p r t')
  from Quadtree_insert_Some [OF built_insert.hyps(2)] obtain n' where
    n': "insert_fuel k (root t) p = Some (r, n')" and t': "t' = t\<lparr>root := n'\<rparr>"
    by blast
  from insert_fuel_post [OF n'] built_insert.IH
  have "boundary n' = b" "capacity n' = c" "geom_inv n'" "0 \<le> c \<longrightarrow> cap_inv n'"
    "mset (all_points n') = mset (filter (contains b) (ps @ [p]))"
    by (auto simp: ins_post_def)
  with built_insert.IH t' show ?case by simp
qed

lemma cap_inv_nodes:
  "cap_inv n \<Longrightarrow>
     list_all (\<lambda>m. if divided m then points m = [] else int (length (points m)) \<le> capacity m)
       (nodes n)"
  by (induction n) simp_all

text \<open>
  C7. A point outside the root boundary is rejected: \<open>insert\<close> returns \<open>False\<close> at
  once (a single call, whatever the tree) and the tree afterwards is the tree before,
  so the stored points are the same too.
\<close>

theorem insert_outside_rejected:
  assumes "\<not> contains (boundary (root t)) p"
  shows "insert_fuel (Suc k) (root t) p = Some (False, root t) \<and>
         Quadtree_insert (Suc k) t p = Some (False, t)"
  using assms by (simp add: Quadtree_insert_def insert_body_def)

theorem insert_outside_rejected_witness:
  "\<not> contains (boundary (root (Quadtree_init (Rectangle_init 0 0 10 10) 4)))
       \<lparr>p_x = 10, p_y = 5, p_label = None\<rparr> \<and>
   Quadtree_insert (Suc 0) (Quadtree_init (Rectangle_init 0 0 10 10) 4)
       \<lparr>p_x = 10, p_y = 5, p_label = None\<rparr>
     = Some (False, Quadtree_init (Rectangle_init 0 0 10 10) 4)"
  using insert_outside_rejected [of "Quadtree_init (Rectangle_init 0 0 10 10) 4"
      "\<lparr>p_x = 10, p_y = 5, p_label = None\<rparr>" 0]
  by (simp add: Quadtree_init_def QuadtreeNode_init_def Rectangle_init_def contains_def)

subsection \<open>A tree of two points\<close>

definition demo_boundary :: rectangle where "demo_boundary = Rectangle_init 0 0 8 8"
definition demo_p1 :: point where "demo_p1 = \<lparr>p_x = 1, p_y = 1, p_label = None\<rparr>"
definition demo_p2 :: point where "demo_p2 = \<lparr>p_x = 6, p_y = 6, p_label = None\<rparr>"
definition demo_tree :: quadtree where
  "demo_tree = \<lparr>qt_boundary = demo_boundary,
          root = Divided demo_boundary 1 []
            (Leaf (Rectangle_init 0 0 4 4) 1 [demo_p1])
            (Leaf (Rectangle_init 4 0 4 4) 1 [])
            (Leaf (Rectangle_init 0 4 4 4) 1 [])
            (Leaf (Rectangle_init 4 4 4 4) 1 [demo_p2])\<rparr>"

lemma demo_tree_built: "built demo_boundary 1 [demo_p1, demo_p2] demo_tree"
proof -
  let ?t1 = "\<lparr>qt_boundary = demo_boundary, root = Leaf demo_boundary 1 [demo_p1]\<rparr>"
  have 1: "Quadtree_insert (Suc 0) (Quadtree_init demo_boundary 1) demo_p1 = Some (True, ?t1)"
    by (simp add: Quadtree_insert_def Quadtree_init_def QuadtreeNode_init_def insert_body_def
        demo_boundary_def demo_p1_def Rectangle_init_def contains_def)
  have 2: "Quadtree_insert (Suc (Suc 0)) ?t1 demo_p2 = Some (True, demo_tree)"
    by (simp add: Quadtree_insert_def insert_body_def subdivide_def QuadtreeNode_init_def
        demo_boundary_def demo_p1_def demo_p2_def demo_tree_def Rectangle_init_def contains_def)
  from built_insert [OF built_insert [OF built_init 1] 2] show ?thesis by simp
qed

text \<open>
  C8. In a tree built from a fresh one (of capacity at least 0, as the constructor's
  contract asks) by any sequence of insertions that returned, every node is either a leaf
  with at most \<open>capacity\<close> resident points or a divided node with no resident point.
\<close>

theorem capacity_invariant:
  assumes "0 \<le> c" and "built b c ps t"
  shows "list_all
           (\<lambda>n. if divided n then points n = [] else int (length (points n)) \<le> capacity n)
           (nodes (root t))"
  using built_inv [OF assms(2)] assms(1) by (simp add: cap_inv_nodes)

theorem capacity_invariant_witness:
  "(0::int) \<le> 1 \<and> built demo_boundary 1 [demo_p1, demo_p2] demo_tree \<and>
   list_all (\<lambda>n. if divided n then points n = [] else int (length (points n)) \<le> capacity n)
     (nodes (root demo_tree))"
  using capacity_invariant [OF _ demo_tree_built] demo_tree_built by simp

subsection \<open>A second point at the same place\<close>

definition origin :: point where "origin = \<lparr>p_x = 0, p_y = 0, p_label = None\<rparr>"

lemma insert_duplicate_None:
  "0 < w \<Longrightarrow> 0 < h \<Longrightarrow> insert_fuel k (Leaf (Rectangle_init 0 0 w h) 1 [origin]) origin = None"
proof (induction k arbitrary: w h)
  case 0
  show ?case by simp
next
  case (Suc k)
  let ?b = "Rectangle_init 0 0 w h"
  let ?nw = "Rectangle_init 0 0 (w / 2) (h / 2)"
  have inside: "contains ?b origin" "contains ?nw origin"
    using Suc.prems by (simp_all add: contains_def Rectangle_init_def origin_def)
  have sub: "subdivide (Leaf ?b 1 [origin]) =
      Divided ?b 1 [origin] (Leaf ?nw 1 [])
        (Leaf (Rectangle_init (0 + w / 2) 0 (w / 2) (h / 2)) 1 [])
        (Leaf (Rectangle_init 0 (0 + h / 2) (w / 2) (h / 2)) 1 [])
        (Leaf (Rectangle_init (0 + w / 2) (0 + h / 2) (w / 2) (h / 2)) 1 [])"
    by (simp add: subdivide_def QuadtreeNode_init_def Rectangle_init_def Let_def)
  have IH: "insert_fuel k (Leaf ?nw 1 [origin]) origin = None"
    using Suc.prems by (intro Suc.IH) simp_all
  show ?case
  proof (cases k)
    case 0
    with inside show ?thesis by (simp add: insert_body_def sub)
  next
    case (Suc j)
    have first: "insert_fuel k (Leaf ?nw 1 []) origin = Some (True, Leaf ?nw 1 [origin])"
      using inside by (simp add: Suc insert_body_def)
    show ?thesis
      using inside(1) by (simp add: insert_body_def sub first IH)
  qed
qed

text \<open>
  C5 (the code does not do this). In the tree of capacity 1 over \<open>Rectangle(0, 0, 1, 1)\<close>
  that holds the point (0, 0), inserting (0, 0) again, a point inside the root boundary,
  returns at no depth of recursion: every subdivision leaves both points in the
  north-west child.
\<close>

theorem insert_duplicate_diverges:
  "built (Rectangle_init 0 0 1 1) 1 [origin]
     \<lparr>qt_boundary = Rectangle_init 0 0 1 1, root = Leaf (Rectangle_init 0 0 1 1) 1 [origin]\<rparr> \<and>
   contains (Rectangle_init 0 0 1 1) origin \<and>
   (\<forall>k. Quadtree_insert k
      \<lparr>qt_boundary = Rectangle_init 0 0 1 1, root = Leaf (Rectangle_init 0 0 1 1) 1 [origin]\<rparr>
      origin = None)"
proof (intro conjI allI)
  let ?b = "Rectangle_init 0 0 1 1"
  have "Quadtree_insert (Suc 0) (Quadtree_init ?b 1) origin =
      Some (True, \<lparr>qt_boundary = ?b, root = Leaf ?b 1 [origin]\<rparr>)"
    by (simp add: Quadtree_insert_def Quadtree_init_def QuadtreeNode_init_def insert_body_def
        origin_def Rectangle_init_def contains_def)
  from built_insert [OF built_init this]
  show "built ?b 1 [origin] \<lparr>qt_boundary = ?b, root = Leaf ?b 1 [origin]\<rparr>" by simp
  show "contains ?b origin" by (simp add: origin_def Rectangle_init_def contains_def)
  fix k
  show "Quadtree_insert k \<lparr>qt_boundary = ?b, root = Leaf ?b 1 [origin]\<rparr> origin = None"
    by (simp add: Quadtree_insert_def insert_duplicate_None)
qed

text \<open>
  C9, as stated, fails: a rectangle of width \<open>-1\<close> and height 0 and a capacity 0 are
  accepted, and the constructor returns a tree.
\<close>

theorem construct_invalid_counterexample:
  "Rectangle_construct 0 0 (- 1) 0 = Inr (Rectangle_init 0 0 (- 1) 0) \<and>
   Quadtree_construct (Rectangle_init 0 0 (- 1) 0) 0 =
     Inr \<lparr>qt_boundary = Rectangle_init 0 0 (- 1) 0, root = Leaf (Rectangle_init 0 0 (- 1) 0) 0 []\<rparr>"
  by (simp add: Rectangle_construct_def Quadtree_construct_def Quadtree_init_def
      QuadtreeNode_init_def)

text \<open>
  C9, amended. The constructors check nothing: for every rectangle and every capacity,
  also non-positive ones, construction succeeds with the fields stored as given and an
  empty leaf as root.
\<close>

theorem construct_never_fails:
  "Rectangle_construct x y w h = Inr \<lparr>r_x = x, r_y = y, r_width = w, r_height = h\<rparr> \<and>
   Quadtree_construct b c = Inr \<lparr>qt_boundary = b, root = Leaf b c []\<rparr>"
  by (simp add: Rectangle_construct_def Quadtree_construct_def Quadtree_init_def
      QuadtreeNode_init_def Rectangle_init_def)

section \<open>Search against the linear scan\<close>

lemma built_search_facts:
  assumes "built b c ps t"
  shows "best_of q (set (all_points (root t))) fresh_best_found
           (query (root t) q fresh_best_found)"
    and "best_of q (set (all_points (root t))) fresh_best_found
           (find_nearest_node (root t) q fresh_best_found)"
    and "set (all_points (root t)) = set (filter (contains b) ps)"
proof -
  from built_inv [OF assms] have g: "geom_inv (root t)"
    and m: "mset (all_points (root t)) = mset (filter (contains b) ps)" by simp_all
  from g show "best_of q (set (all_points (root t))) fresh_best_found
      (query (root t) q fresh_best_found)" by (rule query_best)
  from g show "best_of q (set (all_points (root t))) fresh_best_found
      (find_nearest_node (root t) q fresh_best_found)" by (rule find_nearest_node_best)
  from m show "set (all_points (root t)) = set (filter (contains b) ps)" by (rule mset_eq_setD)
qed

lemma brute_force_dist:
  "best_of q (set xs) fresh_best_found bf \<Longrightarrow> snd (find_closest_brute_force q xs) = dist_sq bf"
proof -
  assume a: "best_of q (set xs) fresh_best_found bf"
  from brute_force_best [of q xs] obtain bf' where
    e: "find_closest_brute_force q xs = (point bf', dist_sq bf')"
    and b: "best_of q (set xs) fresh_best_found bf'" by blast
  from b a have "dist_sq bf' = dist_sq bf" by (rule best_of_unique)
  with e show ?thesis by simp
qed

text \<open>
  In exact arithmetic, for every tree built by insertions and every query point,
  \<open>query\<close> and \<open>_find_nearest\<close>, each started on a fresh accumulator, end with the same
  best squared distance, the minimum of the linear scan over the stored points. The
  float program differs: in \<open>Quadtree(Rectangle(0, 0, 3e154, 1), 1)\<close> holding (0, 0.25) and
  (2.9e154, 0.25), with the query (3.1e154, 0.25), \<open>query\<close> visits the north-east child
  first and prunes the north-west one (its bound \<open>dx*dx\<close> is \<open>inf\<close>), while
  \<open>_find_nearest\<close> visits the north-west child first and \<open>(0 - 3.1e154)**2\<close> raises
  \<open>OverflowError\<close>.
\<close>

lemma search_variants_agree_exact:
  assumes "built b c ps t"
  shows "dist_sq (query (root t) q fresh_best_found) =
           dist_sq (find_nearest_node (root t) q fresh_best_found) \<and>
         dist_sq (query (root t) q fresh_best_found) =
           snd (find_closest_brute_force q (all_points (root t)))"
proof -
  note f = built_search_facts(1,2) [OF assms, of q]
  from f have "dist_sq (query (root t) q fresh_best_found) =
      dist_sq (find_nearest_node (root t) q fresh_best_found)" by (rule best_of_unique)
  moreover from f(1) have "snd (find_closest_brute_force q (all_points (root t))) =
      dist_sq (query (root t) q fresh_best_found)" by (rule brute_force_dist)
  ultimately show ?thesis by simp
qed

text \<open>
  In exact arithmetic, \<open>find_nearest\<close> returns the square root of the minimum squared
  distance that \<open>find_closest_brute_force\<close> computes over the stored points, the stored
  points are the inserted points inside the root boundary, and the returned point is a
  stored point at that distance. The float program differs: in
  \<open>Quadtree(Rectangle(1.0, 0, 0.3, 1.0), 1)\<close> the east children end at
  \<open>1.15 + 0.15 = 1.2999999999999998\<close>, below \<open>1.0 + 0.3\<close>, so the stored point
  (1.2999999999999998, 0.5) is in no child when the leaf is subdivided, and the loop that
  moves the points drops it.
\<close>

lemma find_nearest_matches_brute_force_exact:
  assumes "built b c ps t"
  shows "snd (Quadtree_find_nearest t q) =
           xsqrt (snd (find_closest_brute_force q (all_points (root t)))) \<and>
         mset (all_points (root t)) = mset (filter (contains b) ps) \<and>
         snd (find_closest_brute_force q (all_points (root t))) =
           snd (find_closest_brute_force q (filter (contains b) ps)) \<and>
         (case fst (Quadtree_find_nearest t q) of
            None \<Rightarrow> all_points (root t) = []
          | Some p \<Rightarrow> p \<in> set (all_points (root t)) \<and>
              snd (Quadtree_find_nearest t q) = Fin (sqrt (point_dist_sq p q)))"
proof -
  let ?best = "find_nearest_node (root t) q fresh_best_found"
  note f = built_search_facts(1,2) [OF assms, of q] built_search_facts(3) [OF assms]
  have d: "snd (find_closest_brute_force q (all_points (root t))) = dist_sq ?best"
    using f(2) by (rule brute_force_dist)
  have d': "snd (find_closest_brute_force q (filter (contains b) ps)) = dist_sq ?best"
    using f(2) unfolding f(3) by (rule brute_force_dist)
  from best_of_fresh_point [OF f(2)]
  have "case point ?best of
          None \<Rightarrow> all_points (root t) = []
        | Some p \<Rightarrow> p \<in> set (all_points (root t)) \<and>
            xsqrt (dist_sq ?best) = Fin (sqrt (point_dist_sq p q))"
    by (auto split: option.splits)
  moreover have "fst (Quadtree_find_nearest t q) = point ?best"
    "snd (Quadtree_find_nearest t q) = xsqrt (dist_sq ?best)"
    by (simp_all add: Quadtree_find_nearest_def Let_def)
  moreover from built_inv [OF assms]
  have "mset (all_points (root t)) = mset (filter (contains b) ps)" by simp
  ultimately show ?thesis by (simp only: d d' simp_thms)
qed


section \<open>Routing of a point to the children\<close>

lemma quarters_disjoint:
  assumes "quartered (Divided b c ps nw ne sw se)"
  shows "contains (boundary nw) p \<Longrightarrow>
           \<not> contains (boundary ne) p \<and> \<not> contains (boundary sw) p \<and> \<not> contains (boundary se) p"
    and "contains (boundary ne) p \<Longrightarrow> \<not> contains (boundary sw) p \<and> \<not> contains (boundary se) p"
    and "contains (boundary sw) p \<Longrightarrow> \<not> contains (boundary se) p"
  using assms by (auto simp: quartered_Divided contains_def Rectangle_init_def)

lemma call_ok_True_inside:
  "call_ok ins \<Longrightarrow> ins n p = Some (True, n') \<Longrightarrow> contains (boundary n) p"
  unfolding call_ok_def ins_post_def by blast

text \<open>What the insertion of \<open>p\<close> does to a child: it receives \<open>p\<close> or it is left alone.\<close>

definition routed :: "point \<Rightarrow> node \<Rightarrow> node \<Rightarrow> bool" where
  "routed p ch ch' \<longleftrightarrow>
     (if contains (boundary ch) p
      then mset (all_points ch') = add_mset p (mset (all_points ch))
      else ch' = ch)"

lemma routed_same: "\<not> contains (boundary ch) p \<Longrightarrow> routed p ch ch"
  by (simp add: routed_def)

lemma routed_received:
  "contains (boundary ch) p \<Longrightarrow> mset (all_points ch') = add_mset p (mset (all_points ch)) \<Longrightarrow>
     routed p ch ch'"
  by (simp add: routed_def)

lemma insert_to_children_routes:
  assumes ok: "call_ok ins"
    and res: "insert_to_children ins (Divided b c ps nw ne sw se) p = Some (r, n')"
    and g: "geom_inv nw" "geom_inv ne" "geom_inv sw" "geom_inv se"
    and q: "quartered (Divided b c ps nw ne sw se)" and inside: "contains b p"
  shows "divided n' \<and> routed p nw (northwest n') \<and> routed p ne (northeast n') \<and>
         routed p sw (southwest n') \<and> routed p se (southeast n')"
  using res
proof (cases rule: insert_to_children_cases)
  case (nw nw')
  have i: "contains (boundary nw) p" by (rule call_ok_True_inside [OF ok nw(1)])
  note o = quarters_disjoint(1) [OF q i]
  from routed_received [OF i call_ok_True [OF ok nw(1) g(1)]] o nw(3)
  show ?thesis by (simp add: routed_same)
next
  case (ne nw' ne')
  note f = call_ok_False [OF ok ne(1) g(1)]
  have i: "contains (boundary ne) p" by (rule call_ok_True_inside [OF ok ne(2)])
  note o = quarters_disjoint(2) [OF q i]
  from routed_received [OF i call_ok_True [OF ok ne(2) g(2)]] o f ne(4)
  show ?thesis by (simp add: routed_same)
next
  case (sw nw' ne' sw')
  note f = call_ok_False [OF ok sw(1) g(1)] call_ok_False [OF ok sw(2) g(2)]
  have i: "contains (boundary sw) p" by (rule call_ok_True_inside [OF ok sw(3)])
  note o = quarters_disjoint(3) [OF q i]
  from routed_received [OF i call_ok_True [OF ok sw(3) g(3)]] o f sw(5)
  show ?thesis by (simp add: routed_same)
next
  case (se nw' ne' sw' se')
  note f = call_ok_False [OF ok se(1) g(1)] call_ok_False [OF ok se(2) g(2)]
    call_ok_False [OF ok se(3) g(3)]
  from f have i: "contains (boundary se) p" using quarters_cover [OF q inside] by blast
  from call_ok_inside [OF ok se(4) g(4) i]
  have "mset (all_points se') = add_mset p (mset (all_points se))" by simp
  from routed_received [OF i this] f se(5)
  show ?thesis by (simp add: routed_same)
qed

lemma insert_fuel_divided:
  assumes "insert_fuel k n p = Some (r, n')" "divided n" "contains (boundary n) p"
  obtains j where "k = Suc j" "insert_to_children (insert_fuel j) n p = Some (r, n')"
proof (cases k)
  case 0
  with assms(1) show ?thesis by simp
next
  case (Suc j)
  with assms have "insert_to_children (insert_fuel j) n p = Some (r, n')"
    by (simp add: insert_body_def)
  with Suc show ?thesis by (rule that)
qed

lemma insert_divided_routes:
  assumes res: "insert_fuel k (Divided b c ps nw ne sw se) p = Some (r, n')"
    and g: "geom_inv (Divided b c ps nw ne sw se)" and inside: "contains b p"
  shows "divided n' \<and> routed p nw (northwest n') \<and> routed p ne (northeast n') \<and>
         routed p sw (southwest n') \<and> routed p se (southeast n')"
proof -
  from res obtain j where
    "insert_to_children (insert_fuel j) (Divided b c ps nw ne sw se) p = Some (r, n')"
    by (rule insert_fuel_divided) (simp_all add: inside)
  from insert_fuel_ok this show ?thesis
    by (rule insert_to_children_routes) (use g inside in simp_all)
qed


lemma subdivide_partition:
  assumes "contains (boundary n) p"
  shows "length (filter (\<lambda>ch. contains (boundary ch) p) (children (subdivide n))) = 1"
proof -
  have "subdivide n = Divided (boundary n) (capacity n) (points n)
      (northwest (subdivide n)) (northeast (subdivide n))
      (southwest (subdivide n)) (southeast (subdivide n))"
    by (simp add: subdivide_def Let_def)
  with subdivide_quartered [of n] assms quarters_partition show ?thesis
    by (metis children.simps(2))
qed

definition demo_edge :: point where "demo_edge = \<lparr>p_x = 4, p_y = 1, p_label = None\<rparr>"



lemma demo_edge_inside: "contains (boundary (root demo_tree)) demo_edge"
  by (simp add: demo_tree_def demo_boundary_def demo_edge_def contains_def Rectangle_init_def)

text \<open>
  In exact arithmetic the four boundaries that \<open>subdivide\<close> creates partition the
  parent's boundary, and an insertion into a divided node that returns has given the
  point to the one child that contains it. The float program differs: the sum
  \<open>(x + w) + w\<close> can round below \<open>x + width\<close>, and a point of the parent between the two
  is in no child.
\<close>

lemma quartering_routes_to_one_child_exact:
  assumes "contains (boundary n) p"
  shows "length (filter (\<lambda>ch. contains (boundary ch) p) (children (subdivide n))) = 1 \<and>
         (divided n \<and> geom_inv n \<and> insert_fuel k n p = Some (r, n') \<longrightarrow>
            r \<and> divided n' \<and>
            length (filter (\<lambda>ch. contains (boundary ch) p) (children n)) = 1 \<and>
            list_all2 (routed p) (children n) (children n') \<and>
            mset (all_points n') = add_mset p (mset (all_points n)))"
proof (intro conjI impI)
  show "length (filter (\<lambda>ch. contains (boundary ch) p) (children (subdivide n))) = 1"
    using assms by (rule subdivide_partition)
next
  assume a: "divided n \<and> geom_inv n \<and> insert_fuel k n p = Some (r, n')"
  then obtain b c ps nw ne sw se where n: "n = Divided b c ps nw ne sw se"
    by (cases n) simp_all
  from a have res: "insert_fuel k (Divided b c ps nw ne sw se) p = Some (r, n')"
    and g: "geom_inv (Divided b c ps nw ne sw se)" by (simp_all add: n)
  from assms have inside: "contains b p" by (simp add: n)
  from insert_fuel_post [OF res] g inside
  show "r" and "mset (all_points n') = add_mset p (mset (all_points n))"
    by (simp_all add: ins_post_def n)
  from g have "quartered (Divided b c ps nw ne sw se)" by simp
  from quarters_partition [OF this inside]
  show "length (filter (\<lambda>ch. contains (boundary ch) p) (children n)) = 1" by (simp add: n)
  note rt = insert_divided_routes [OF res g inside]
  then show "divided n'" by simp
  then obtain b' c' ps' nw' ne' sw' se' where "n' = Divided b' c' ps' nw' ne' sw' se'"
    by (cases n') simp_all
  with rt show "list_all2 (routed p) (children n) (children n')" by (simp add: n)
qed









section \<open>The search does not change the tree\<close>

lemma visit_unchanged:
  assumes "\<And>s child acc. (s, child) \<in> set xs \<Longrightarrow> f child acc = (child, g child acc)"
  shows "visit f xs bf = (xs, fold g (map snd xs) bf)"
  using assms
proof (induction xs arbitrary: bf)
  case Nil
  show ?case by simp
next
  case (Cons a xs)
  obtain s child where a: "a = (s, child)" by (cases a)
  have h: "f child bf = (child, g child bf)" by (rule Cons.prems [of s]) (simp add: a)
  have r: "visit f xs acc = (xs, fold g (map snd xs) acc)" for acc
  proof (rule Cons.IH)
    fix s' child' acc'
    assume "(s', child') \<in> set xs"
    then have "(s', child') \<in> set (a # xs)" by simp
    then show "f child' acc' = (child', g child' acc')" by (rule Cons.prems)
  qed
  show ?case by (simp add: a h r)
qed

lemma insort_key_map_snd:
  "map snd (insort_key (\<lambda>(s, child). k child) x xs) = insort_key k (snd x) (map snd xs)"
  by (induction xs) (auto simp: case_prod_beta)

lemma sort_key_map_snd:
  "map snd (sort_key (\<lambda>(s, child). k child) xs) = sort_key k (map snd xs)"
  by (induction xs) (simp_all add: insort_key_map_snd)

lemma child_at_sorted:
  assumes "distinct (map fst xs)" "(s, child) \<in> set xs"
  shows "child_at (sort_key k xs) s old = child"
proof -
  have "distinct (map fst (sort_key k xs))"
    using assms(1) by (metis distinct_map distinct_sort set_sort inj_on_cong)
  moreover have "(s, child) \<in> set (sort_key k xs)" using assms(2) by (simp del: sort_key_simps)
  ultimately have "map_of (sort_key k xs) s = Some child" by (rule map_of_is_SomeI)
  then show ?thesis by (simp add: child_at_def)
qed


lemma divided_frame:
  assumes kids: "\<And>child acc. child \<in> {nw, ne, sw, se} \<Longrightarrow> f child acc = (child, g child acc)"
  shows "(case visit f (sort_key (\<lambda>(s, child). k child) [(NW, nw), (NE, ne), (SW, sw), (SE, se)]) bf of
            (kids, bf') \<Rightarrow>
              (Divided b c ps (child_at kids NW nw) (child_at kids NE ne)
                 (child_at kids SW sw) (child_at kids SE se), bf')) =
         (Divided b c ps nw ne sw se, fold g (sort_key k [nw, ne, sw, se]) bf)"
proof -
  let ?tagged = "[(NW, nw), (NE, ne), (SW, sw), (SE, se)]"
  let ?sorted = "sort_key (\<lambda>(s, child). k child) ?tagged"
  have d: "distinct (map fst ?tagged)" by simp
  have v: "visit f ?sorted bf = (?sorted, fold g (map snd ?sorted) bf)"
  proof (rule visit_unchanged)
    fix s child acc
    assume "(s, child) \<in> set ?sorted"
    then have "(s, child) \<in> set ?tagged" by (simp only: set_sort)
    then have "child \<in> {nw, ne, sw, se}" by auto
    then show "f child acc = (child, g child acc)" by (rule kids)
  qed
  have m: "map snd ?sorted = sort_key k [nw, ne, sw, se]"
    by (simp only: sort_key_map_snd list.map snd_conv)
  have c: "child_at ?sorted NW nw = nw" "child_at ?sorted NE ne = ne"
    "child_at ?sorted SW sw = sw" "child_at ?sorted SE se = se"
    by (rule child_at_sorted [OF d], simp)+
  show ?thesis by (simp only: v m c prod.case)
qed

lemma query_st_frame: "query_st n q bf = (n, query n q bf)"
proof (induction n arbitrary: bf)
  case (Leaf b c ps)
  show ?case by simp
next
  case (Divided b c ps nw ne sw se)
  have kids: "query_st child q acc = (child, query child q acc)"
    if "child \<in> {nw, ne, sw, se}" for child acc
    using that Divided.IH by auto
  show ?case
  proof (cases "dist_sq bf < Fin (distance_sq_to_point b q)")
    case True
    then show ?thesis by simp
  next
    case False
    let ?n = "Divided b c ps nw ne sw se"
    have "query_st ?n q bf =
        (case visit (\<lambda>child acc. query_st child q acc)
                (sort_key (\<lambda>(s, child). distance_sq_to_point (boundary child) q)
                   [(NW, nw), (NE, ne), (SW, sw), (SE, se)])
                (scan_points q ps bf) of
           (kids, bf') \<Rightarrow>
             (Divided b c ps (child_at kids NW nw) (child_at kids NE ne)
                (child_at kids SW sw) (child_at kids SE se), bf'))"
      by (simp only: query_st.simps False if_False)
    also have "\<dots> = (?n, fold (\<lambda>child acc. query child q acc)
        (sort_key (\<lambda>child. distance_sq_to_point (boundary child) q) [nw, ne, sw, se]) (scan_points q ps bf))"
      by (rule divided_frame) (rule kids)
    also have "\<dots> = (?n, query ?n q bf)"
      by (simp only: query.simps False if_False)
    finally show ?thesis .
  qed
qed

lemma find_nearest_node_st_frame:
  "find_nearest_node_st n q bf = (n, find_nearest_node n q bf)"
proof (induction n arbitrary: bf)
  case (Leaf b c ps)
  show ?case by simp
next
  case (Divided b c ps nw ne sw se)
  have kids: "find_nearest_node_st child q acc = (child, find_nearest_node child q acc)"
    if "child \<in> {nw, ne, sw, se}" for child acc
    using that Divided.IH by auto
  show ?case
  proof (cases "dist_sq bf < Fin (distance_sq_to_point b q)")
    case True
    then show ?thesis by simp
  next
    case False
    let ?n = "Divided b c ps nw ne sw se"
    have "find_nearest_node_st ?n q bf =
        (case visit (\<lambda>child acc. find_nearest_node_st child q acc)
                (sort_key (\<lambda>(s, child). \<not> contains (boundary child) q)
                   [(NW, nw), (NE, ne), (SW, sw), (SE, se)])
                (scan_points q ps bf) of
           (kids, bf') \<Rightarrow>
             (Divided b c ps (child_at kids NW nw) (child_at kids NE ne)
                (child_at kids SW sw) (child_at kids SE se), bf'))"
      by (simp only: find_nearest_node_st.simps False if_False)
    also have "\<dots> = (?n, fold (\<lambda>child acc. find_nearest_node child q acc)
        (sort_key (\<lambda>child. \<not> contains (boundary child) q) [nw, ne, sw, se]) (scan_points q ps bf))"
      by (rule divided_frame) (rule kids)
    also have "\<dots> = (?n, find_nearest_node ?n q bf)"
      by (simp only: find_nearest_node.simps False if_False)
    finally show ?thesis .
  qed
qed

text \<open>
  C10. Searching is read-only: for every node, tree, query point and accumulator, \<open>query\<close>,
  \<open>_find_nearest\<close> and \<open>Quadtree.find_nearest\<close> leave the whole tree (every boundary,
  point list, flag and child) as it was; only the accumulator changes, to the value that
  the functions \<open>query\<close> and \<open>find_nearest_node\<close> compute.
\<close>

theorem search_leaves_tree_unchanged:
  "query_st n q bf = (n, query n q bf) \<and>
   find_nearest_node_st n q bf = (n, find_nearest_node n q bf) \<and>
   Quadtree_query_st t q bf = (t, Quadtree_query t q bf) \<and>
   Quadtree_find_nearest_st t q = (t, Quadtree_find_nearest t q)"
  by (simp add: query_st_frame find_nearest_node_st_frame Quadtree_query_st_def
      Quadtree_query_def Quadtree_find_nearest_st_def Quadtree_find_nearest_def Let_def)

end
